theory Spec2Isabelle
  imports Complex_Main "HOL-Library.Word" "HOL-Library.Product_Lexorder" "HOL-Library.Multiset"
begin

section \<open>Configuration: the extraction-method selector\<close>

text \<open>
  \<^verbatim>\<open>class DFAlignerExtractionMethod(Enum): beam = "beam"; dijkstra = "dijkstra"\<close>
  (config/__init__.py, lines 17-19). The enum has two members; looking a member up by
  value raises ValueError for every other string.
\<close>

datatype DFAlignerExtractionMethod = beam | dijkstra

fun method_value :: "DFAlignerExtractionMethod \<Rightarrow> string" where
  "method_value beam = ''beam''"
| "method_value dijkstra = ''dijkstra''"

definition method_of_value :: "string \<Rightarrow> DFAlignerExtractionMethod option" where
  "method_of_value s =
     (if s = ''beam'' then Some beam
      else if s = ''dijkstra'' then Some dijkstra
      else None)"

section \<open>The Aligner model object (model.py)\<close>

text \<open>
  Tensors are nested lists: a batch of mel spectrograms is batch x frames x n_mels, a batch
  of token rows is batch x N, the network output is batch x frames x num_symbols.
  The \<open>step\<close> buffer is registered as \<^verbatim>\<open>torch.tensor(1, dtype=torch.int)\<close>
  (line 76): a 32-bit integer, whose in-place addition wraps.
\<close>

type_synonym mel = "real list list list"
type_synonym logits = "real list list list"
type_synonym matrix = "real list list"

datatype py_error = IndexError | AttributeError

record aligner =
  extraction_method :: DFAlignerExtractionMethod
  save_dir :: string
  step :: "32 word"
  training :: bool
  longest_mel :: "mel option"
  longest_tokens :: "nat list list option"

definition new_aligner :: "DFAlignerExtractionMethod \<Rightarrow> string \<Rightarrow> aligner" where
  "new_aligner em dir =
     \<lparr>extraction_method = em, save_dir = dir, step = 1, training = True,
      longest_mel = None, longest_tokens = None\<rparr>"

text \<open>
  \<^verbatim>\<open>if self.train: self.step += 1\<close> (lines 92-93). \<^verbatim>\<open>self.train\<close> is the bound
  method \<^verbatim>\<open>nn.Module.train\<close>, not the flag \<^verbatim>\<open>self.training\<close>; the truth value of a
  method object is True whatever the flag holds.
\<close>

definition train_attr_truthy :: "aligner \<Rightarrow> bool" where
  "train_attr_truthy m = True"

text \<open>
  The layers (three BatchNormConv, the LSTM and the linear layer, lines 94-97) are the
  parameter \<open>net\<close>.
\<close>

definition forward :: "(mel \<Rightarrow> logits) \<Rightarrow> aligner \<Rightarrow> mel \<Rightarrow> aligner \<times> logits" where
  "forward net m x =
     ((if train_attr_truthy m then m\<lparr>step := step m + 1\<rparr> else m), net x)"

text \<open>The model after one forward call on each input of a list, in order.\<close>

fun forward_calls :: "(mel \<Rightarrow> logits) \<Rightarrow> aligner \<Rightarrow> mel list \<Rightarrow> aligner" where
  "forward_calls net m [] = m"
| "forward_calls net m (x # xs) = forward_calls net (fst (forward net m x)) xs"

definition zero_net :: "mel \<Rightarrow> logits" where
  "zero_net x = map (map (\<lambda>frame. [0])) x"

definition aligner_at_int_max :: aligner where
  "aligner_at_int_max = (new_aligner dijkstra ''out'')\<lparr>step := 2147483647\<rparr>"

subsection \<open>predict_step (lines 167-188)\<close>

text \<open>Indexing a list or tensor at \<open>b\<close> raises IndexError past the end.\<close>

definition py_index :: "'a list \<Rightarrow> nat \<Rightarrow> py_error + 'a" where
  "py_index xs i = (if i < length xs then Inr (xs ! i) else Inl IndexError)"

text \<open>The slice \<^verbatim>\<open>xs[:k]\<close>: a negative bound counts from the end.\<close>

definition slice_upto :: "int \<Rightarrow> 'a list \<Rightarrow> 'a list" where
  "slice_upto k xs =
     (if 0 \<le> k then take (nat k) xs else take (length xs - nat (- k)) xs)"

text \<open>\<^verbatim>\<open>torch.softmax(pred, dim=-1)\<close> on one row, over the reals.\<close>

definition softmax :: "real list \<Rightarrow> real list" where
  "softmax xs = map (\<lambda>x. exp x / sum_list (map exp xs)) xs"

text \<open>\<^verbatim>\<open>sep.join(parts)\<close>.\<close>

fun join :: "string \<Rightarrow> string list \<Rightarrow> string" where
  "join sep [] = []"
| "join sep [x] = x"
| "join sep (x # y # ys) = x @ sep @ join sep (y # ys)"

record batch =
  b_tokens :: "nat list list"
  b_mel :: mel
  b_mel_len :: "int list"
  b_basename :: "string list"
  b_speaker :: "string list"
  b_language :: "string list"

text \<open>
  One \<^verbatim>\<open>np.save\<close> call: the path \<^verbatim>\<open>save_dir / "duration" / name\<close> as its
  components, and the array saved.
\<close>

type_synonym np_save = "string list \<times> matrix"

definition predict_item :: "aligner \<Rightarrow> logits \<Rightarrow> batch \<Rightarrow> nat \<Rightarrow> py_error + np_save" where
  "predict_item m pred_batch bt b =
     (case py_index (b_mel_len bt) b of
        Inl e \<Rightarrow> Inl e
      | Inr this_mel_len \<Rightarrow>
     (case py_index pred_batch b of
        Inl e \<Rightarrow> Inl e
      | Inr rows \<Rightarrow>
     (let pred = map softmax (slice_upto this_mel_len rows) in
      case py_index (b_basename bt) b of
        Inl e \<Rightarrow> Inl e
      | Inr basename \<Rightarrow>
     (case py_index (b_speaker bt) b of
        Inl e \<Rightarrow> Inl e
      | Inr speaker \<Rightarrow>
     (case py_index (b_language bt) b of
        Inl e \<Rightarrow> Inl e
      | Inr language \<Rightarrow>
          Inr ([save_dir m, ''duration'',
                join ''--'' [basename, speaker, language, ''duration.npy'']], pred))))))"

text \<open>
  The loop \<^verbatim>\<open>for b in range(tokens.size(0))\<close>: the saves made so far, and the error
  that stopped the loop, if any.
\<close>

fun predict_loop ::
  "aligner \<Rightarrow> logits \<Rightarrow> batch \<Rightarrow> nat list \<Rightarrow> np_save list \<Rightarrow> np_save list \<times> py_error option" where
  "predict_loop m pred_batch bt [] saved = (saved, None)"
| "predict_loop m pred_batch bt (b # bs) saved =
     (case predict_item m pred_batch bt b of
        Inl e \<Rightarrow> (saved, Some e)
      | Inr w \<Rightarrow> predict_loop m pred_batch bt bs (saved @ [w]))"

definition predict_step ::
  "(mel \<Rightarrow> logits) \<Rightarrow> aligner \<Rightarrow> batch \<Rightarrow> aligner \<times> np_save list \<times> py_error option" where
  "predict_step net m bt =
     (let (m', pred_batch) = forward net m (b_mel bt)
      in (m', predict_loop m' pred_batch bt [0..<length (b_tokens bt)] []))"

subsection \<open>_generate_plots (lines 211-239)\<close>

text \<open>
  A tensor of rank 0, 1 or 2. \<^verbatim>\<open>t.squeeze(0)\<close> drops the first dimension when its size
  is 1; \<^verbatim>\<open>t.squeeze()\<close> drops every dimension of size 1.
\<close>

datatype 'a tensor = Scalar 'a | Vec "'a list" | Mat "'a list list"

fun squeeze0 :: "'a list list \<Rightarrow> 'a tensor" where
  "squeeze0 [row] = Vec row"
| "squeeze0 rows = Mat rows"

fun squeeze_vec :: "'a list \<Rightarrow> 'a tensor" where
  "squeeze_vec [x] = Scalar x"
| "squeeze_vec xs = Vec xs"

definition squeeze :: "'a list list \<Rightarrow> 'a tensor" where
  "squeeze rows =
     (case rows of
        [row] \<Rightarrow> squeeze_vec row
      | _ \<Rightarrow> if rows \<noteq> [] \<and> (\<forall>r \<in> set rows. length r = 1)
             then Vec (map hd rows) else Mat rows)"

text \<open>
  The collaborators of \<^verbatim>\<open>_generate_plots\<close> that are not in model.py:
  the network layers, the duration-extraction decoders of
  \<^verbatim>\<open>duration_extraction\<close> named by the selector values (model.py imports
  \<^verbatim>\<open>extract_durations_with_dijkstra\<close>, which is \<open>extractor env dijkstra\<close>),
  \<^verbatim>\<open>pred.max(1)[1]\<close>, and the text processor's \<^verbatim>\<open>decode_tokens\<close> and
  \<^verbatim>\<open>_tokenizer.tokenize\<close>.
\<close>

record env =
  layers :: "mel \<Rightarrow> logits"
  extractor :: "DFAlignerExtractionMethod \<Rightarrow> nat tensor \<Rightarrow> matrix \<Rightarrow> int list"
  argmax_rows :: "matrix \<Rightarrow> nat list"
  decode_tokens :: "nat tensor \<Rightarrow> string"
  tokenize :: "string \<Rightarrow> string list"

text \<open>\<^verbatim>\<open>c * n\<close> on a string: \<open>n\<close> copies, none when \<open>n \<le> 0\<close>.\<close>

definition str_mul :: "string \<Rightarrow> int \<Rightarrow> string" where
  "str_mul c n = concat (replicate (nat n) c)"

text \<open>
  The generator \<^verbatim>\<open>c * durations[i] for i, c in enumerate(tokens)\<close>, from index
  \<open>i\<close> on; \<^verbatim>\<open>durations[i]\<close> raises IndexError past the end of the array.
\<close>

fun duration_parts :: "int list \<Rightarrow> nat \<Rightarrow> string list \<Rightarrow> py_error + string list" where
  "duration_parts durs i [] = Inr []"
| "duration_parts durs i (c # cs) =
     (case py_index durs i of
        Inl e \<Rightarrow> Inl e
      | Inr d \<Rightarrow>
          (case duration_parts durs (Suc i) cs of
             Inl e \<Rightarrow> Inl e
           | Inr ps \<Rightarrow> Inr (str_mul c d # ps)))"

definition target_duration_rep :: "string list \<Rightarrow> int list \<Rightarrow> py_error + string" where
  "target_duration_rep toks durs =
     (case duration_parts durs 0 toks of
        Inl e \<Rightarrow> Inl e
      | Inr ps \<Rightarrow> Inr (join [] ps))"

text \<open>
  What one call logs: the durations extracted, and the three \<^verbatim>\<open>add_text\<close> calls
  (tag, text, global step).
\<close>

record plots =
  durations :: "int list"
  texts :: "(string \<times> string \<times> nat) list"

definition generate_plots ::
  "env \<Rightarrow> aligner \<Rightarrow> mel \<Rightarrow> nat list list \<Rightarrow> nat \<Rightarrow> aligner \<times> (py_error + plots)" where
  "generate_plots ev m mel_in tokens global_step =
     (let m1 = (if longest_mel m = None
                then m\<lparr>longest_mel := Some mel_in, longest_tokens := Some tokens\<rparr>
                else m);
          (m2, out) = forward (layers ev) m1 (the (longest_mel m1))
      in (m2,
          case py_index out 0 of
            Inl e \<Rightarrow> Inl e
          | Inr out0 \<Rightarrow>
         (let pred = map softmax out0 in
          case longest_tokens m2 of
            None \<Rightarrow> Inl AttributeError
          | Some lt \<Rightarrow>
         (let durs = extractor ev dijkstra (squeeze0 lt) pred;
              pred_max = argmax_rows ev pred;
              pred_text = decode_tokens ev (Vec pred_max);
              target_text = decode_tokens ev (squeeze lt)
          in case target_duration_rep (tokenize ev target_text) durs of
               Inl e \<Rightarrow> Inl e
             | Inr rep \<Rightarrow>
                 Inr \<lparr>durations = durs,
                      texts = [(''validation/prediction'', ''    '' @ pred_text, global_step),
                               (''validation/target'', ''    '' @ target_text, global_step),
                               (''validation/target_duration_rep'', ''    '' @ rep,
                                global_step)]\<rparr>))))"

text \<open>A network of two symbols with equal scores, and a batch of one item.\<close>

definition flat_net :: "mel \<Rightarrow> logits" where
  "flat_net x = map (map (\<lambda>frame. [0, 0])) x"

definition sample_batch :: batch where
  "sample_batch =
     \<lparr>b_tokens = [[0, 1, 0]], b_mel = [[[0], [0], [0]]], b_mel_len = [2],
      b_basename = [''utt1''], b_speaker = [''spk''], b_language = [''eng'']\<rparr>"

text \<open>Concrete collaborators: two decoders that answer differently.\<close>

definition two_decoders :: "DFAlignerExtractionMethod \<Rightarrow> nat tensor \<Rightarrow> matrix \<Rightarrow> int list" where
  "two_decoders s toks pred = (case s of beam \<Rightarrow> [1, 2] | dijkstra \<Rightarrow> [2, 1])"

definition sample_env :: env where
  "sample_env =
     \<lparr>layers = zero_net, extractor = two_decoders, argmax_rows = map (\<lambda>row. 0),
      decode_tokens = (\<lambda>t. ''ab''), tokenize = map (\<lambda>c. [c])\<rparr>"


section \<open>The duration-extraction decoders\<close>

text \<open>
  model.py imports \<^verbatim>\<open>extract_durations_with_dijkstra\<close> from the module
  \<^verbatim>\<open>duration_extraction\<close>, which is not among the source files, and the beam
  variant named in the configuration is not there either. The definitions of this section
  follow the specification (sections 3, 4 and 7) instead.
\<close>

text \<open>
  Modelled from the spec: the PosteriorMatrix of the missing module
  \<^verbatim>\<open>duration_extraction\<close>, a dense table of \<open>T\<close> frames by \<open>V\<close> symbols: its
  shape and its entries.
\<close>

record posterior =
  frames :: nat
  symbols :: nat
  prob :: "nat \<Rightarrow> nat \<Rightarrow> real"

text \<open>
  Modelled from the spec: the argument handed to the logarithm in the missing cost model,
  \<open>max(P[i][token[j]], \<epsilon>)\<close> (section 4.1); the floor \<open>\<epsilon>\<close> is a parameter.
\<close>

definition floored :: "real \<Rightarrow> real \<Rightarrow> real" where
  "floored eps p = max p eps"

text \<open>
  Modelled from the spec: the missing cost model,
  \<open>cost(i, j) = -log(max(P[i][token[j]], \<epsilon>))\<close> (section 4.1), over the reals.
\<close>

definition cost :: "real \<Rightarrow> posterior \<Rightarrow> nat list \<Rightarrow> nat \<Rightarrow> nat \<Rightarrow> real" where
  "cost eps P toks i j = - ln (floored eps (prob P i (toks ! j)))"

text \<open>
  Modelled from the spec: the cumulative costs of the missing exact decoder, a real or
  \<open>+\<infinity>\<close> (section 4.2).
\<close>

datatype ecost = Fin real | PInf

text \<open>
  Modelled from the spec: the sum \<open>cost(i,j) + \<dots>\<close> of the missing exact decoder's
  recurrence (section 4.2), of a cell cost and a cumulative cost; \<open>+\<infinity>\<close> absorbs.
\<close>

fun eadd :: "real \<Rightarrow> ecost \<Rightarrow> ecost" where
  "eadd c (Fin x) = Fin (c + x)"
| "eadd c PInf = PInf"

text \<open>
  Modelled from the spec: the comparison of two cumulative costs of the missing exact
  decoder (section 4.2); \<open>+\<infinity>\<close> is above every real.
\<close>

fun ele :: "ecost \<Rightarrow> ecost \<Rightarrow> bool" where
  "ele (Fin a) (Fin b) = (a \<le> b)"
| "ele a PInf = True"
| "ele PInf (Fin b) = False"

text \<open>
  Modelled from the spec: the \<open>min\<close> of the missing exact decoder's recurrence
  (section 4.2).
\<close>

definition emin :: "ecost \<Rightarrow> ecost \<Rightarrow> ecost" where
  "emin a b = (if ele a b then a else b)"

text \<open>
  Modelled from the spec: the table of the missing exact decoder (section 4.2):
  \<open>best[0][0] = cost(0,0)\<close>, \<open>best[0][j] = +\<infinity>\<close> for \<open>j > 0\<close>, and for \<open>i \<ge> 1\<close>
  \<open>best[i][j] = cost(i,j) + min(best[i-1][j], best[i-1][j-1])\<close>, the second term
  \<open>+\<infinity>\<close> when \<open>j = 0\<close>.
\<close>

fun best :: "(nat \<Rightarrow> nat \<Rightarrow> real) \<Rightarrow> nat \<Rightarrow> nat \<Rightarrow> ecost" where
  "best c 0 j = (if j = 0 then Fin (c 0 0) else PInf)"
| "best c (Suc i) j =
     eadd (c (Suc i) j) (emin (best c i j) (if j = 0 then PInf else best c i (j - 1)))"

text \<open>
  Modelled from the spec: the two kinds of edge of the missing lattice (section 4.1).
\<close>

datatype move = Stay | Advance

text \<open>
  Modelled from the spec: the predecessor recorded per cell by the missing exact decoder,
  for a frame \<open>i \<ge> 1\<close> (section 4.2): the one that achieved the minimum, "advance" on
  an exact tie.
\<close>

definition came_from :: "(nat \<Rightarrow> nat \<Rightarrow> real) \<Rightarrow> nat \<Rightarrow> nat \<Rightarrow> move" where
  "came_from c i j =
     (if j = 0 then Stay
      else if ele (best c (i - 1) (j - 1)) (best c (i - 1) j) then Advance
      else Stay)"

text \<open>
  Modelled from the spec: the backtracking of the missing exact decoder from a cell
  \<open>(i, j)\<close> to frame 0 along the recorded predecessors (section 4.2); the result lists
  the token index of every frame up to \<open>i\<close>.
\<close>

fun backtrack :: "(nat \<Rightarrow> nat \<Rightarrow> real) \<Rightarrow> nat \<Rightarrow> nat \<Rightarrow> nat list" where
  "backtrack c 0 j = [j]"
| "backtrack c (Suc i) j =
     backtrack c i (case came_from c (Suc i) j of Advance \<Rightarrow> j - 1 | Stay \<Rightarrow> j) @ [j]"

text \<open>Modelled from the spec: the error taxonomy of the missing decoders (section 7).\<close>

datatype decode_error = InvalidInput | InfeasibleAlignment | BeamExhausted

text \<open>
  Modelled from the spec: the eager input check of the missing decoders (section 7):
  \<open>N = 0\<close>, \<open>T = 0\<close>, or a token index out of the matrix's symbol range.
\<close>

definition invalid_input :: "posterior \<Rightarrow> nat list \<Rightarrow> bool" where
  "invalid_input P toks \<longleftrightarrow>
     length toks = 0 \<or> frames P = 0 \<or> (\<exists>t \<in> set toks. symbols P \<le> t)"

text \<open>
  Modelled from the spec: the missing \<open>decode_exact\<close> (sections 4.2 and 7): the eager
  check, the failure for \<open>T < N\<close>, the table, the failure when the final cell
  \<open>best[T-1][N-1]\<close> is \<open>+\<infinity>\<close>, and the backtracking from \<open>(T-1, N-1)\<close>.
\<close>

definition decode_exact :: "real \<Rightarrow> posterior \<Rightarrow> nat list \<Rightarrow> decode_error + nat list" where
  "decode_exact eps P toks =
     (if invalid_input P toks then Inl InvalidInput
      else if frames P < length toks then Inl InfeasibleAlignment
      else case best (cost eps P toks) (frames P - 1) (length toks - 1) of
             PInf \<Rightarrow> Inl InfeasibleAlignment
           | Fin final_cost \<Rightarrow> Inr (backtrack (cost eps P toks) (frames P - 1) (length toks - 1)))"

text \<open>
  Modelled from the spec: the total cost of a path, the sum of \<open>cost(i, path[i])\<close> over
  all frames (section 4.1).
\<close>

definition path_cost :: "(nat \<Rightarrow> nat \<Rightarrow> real) \<Rightarrow> nat list \<Rightarrow> real" where
  "path_cost c p = (\<Sum>i < length p. c i (p ! i))"

text \<open>
  Modelled from the spec: the AlignmentPath conditions (section 3): every step stays or
  advances by one token.
\<close>

fun steps_ok :: "nat list \<Rightarrow> bool" where
  "steps_ok [] = True"
| "steps_ok [x] = True"
| "steps_ok (x # y # ys) = ((y = x \<or> y = Suc x) \<and> steps_ok (y # ys))"

text \<open>
  Modelled from the spec: a monotonic alignment path for \<open>N\<close> tokens (section 3):
  \<open>path[0] = 0\<close>, \<open>path[T-1] = N-1\<close>, and every step stays or advances by one.
\<close>

definition valid_path :: "nat \<Rightarrow> nat list \<Rightarrow> bool" where
  "valid_path N p \<longleftrightarrow> 0 < N \<and> p \<noteq> [] \<and> hd p = 0 \<and> last p = N - 1 \<and> steps_ok p"

text \<open>
  Modelled from the spec: the missing \<open>to_durations\<close> (section 4.4): \<open>duration[j]\<close>
  counts the frames with \<open>path[i] = j\<close>; the reducer fails on a path that violates
  monotonicity or coverage.
\<close>

definition to_durations :: "nat list \<Rightarrow> nat \<Rightarrow> nat list option" where
  "to_durations p N =
     (if valid_path N p then Some (map (\<lambda>j. count_list p j) [0..<N]) else None)"

text \<open>
  Modelled from the spec: the concrete scenario of section 8, a matrix of 4 frames by 3
  symbols where symbol 0 dominates frames 0 and 1, symbol 1 frame 2 and symbol 2 frame 3
  (the dominated entries are exact zeros).
\<close>

definition dominant :: posterior where
  "dominant =
     \<lparr>frames = 4, symbols = 3, prob = (\<lambda>i k. if k = [0, 0, 1, 2] ! i then 1 else 0)\<rparr>"

text \<open>
  Modelled from the spec: a matrix with perfectly uniform probabilities (section 8), of
  \<open>T\<close> frames by \<open>V\<close> symbols.
\<close>

definition uniform :: "nat \<Rightarrow> nat \<Rightarrow> posterior" where
  "uniform T V = \<lparr>frames = T, symbols = V, prob = (\<lambda>i k. 1 / real V)\<rparr>"

text \<open>
  Modelled from the spec: a hypothesis of the missing beam decoder (section 4.3): the
  cumulative cost, the current token index and the partial path.
\<close>

record hyp =
  hcost :: real
  htok :: nat
  hpath :: "nat list"

text \<open>
  Modelled from the spec: the expansion of a hypothesis of the missing beam decoder at
  frame \<open>i\<close> by its legal transitions (section 4.3): stay, and advance if not yet at
  the last token. Each candidate carries the transition it arrived by.
\<close>

definition expand :: "(nat \<Rightarrow> nat \<Rightarrow> real) \<Rightarrow> nat \<Rightarrow> nat \<Rightarrow> hyp \<Rightarrow> (move \<times> hyp) list" where
  "expand c N i h =
     (Stay, \<lparr>hcost = hcost h + c i (htok h), htok = htok h, hpath = hpath h @ [htok h]\<rparr>)
     # (if Suc (htok h) < N
        then [(Advance, \<lparr>hcost = hcost h + c i (Suc (htok h)), htok = Suc (htok h),
                         hpath = hpath h @ [Suc (htok h)]\<rparr>)]
        else [])"

text \<open>
  Modelled from the spec: the order of candidates in the missing beam decoder
  (section 4.3): lower cumulative cost first and, on a tie, the candidate that arrived via
  "advance" first.
\<close>

definition cand_key :: "move \<times> hyp \<Rightarrow> real \<times> nat" where
  "cand_key x = (hcost (snd x), case fst x of Advance \<Rightarrow> 0 | Stay \<Rightarrow> 1)"

text \<open>
  Modelled from the spec: the candidate kept among those that land on the same cell in
  the missing beam decoder (section 4.3): the lower-cost one, the "advance" one on a tie.
\<close>

fun pick_best :: "(move \<times> hyp) list \<Rightarrow> (move \<times> hyp) option" where
  "pick_best [] = None"
| "pick_best (x # xs) =
     (case pick_best xs of
        None \<Rightarrow> Some x
      | Some y \<Rightarrow> Some (if cand_key x \<le> cand_key y then x else y))"

text \<open>
  Modelled from the spec: the merge of the candidates of one frame in the missing beam
  decoder (section 4.3): one candidate per token index reached.
\<close>

definition merge_cands :: "nat \<Rightarrow> (move \<times> hyp) list \<Rightarrow> (move \<times> hyp) list" where
  "merge_cands N cands =
     List.map_filter (\<lambda>j. pick_best (filter (\<lambda>x. htok (snd x) = j) cands)) [0..<N]"

text \<open>
  Modelled from the spec: the pruning of the missing beam decoder (section 4.3): the
  \<open>K\<close> lowest-cumulative-cost candidates, ties broken in favour of "advance".
\<close>

definition prune :: "nat \<Rightarrow> (move \<times> hyp) list \<Rightarrow> (move \<times> hyp) list" where
  "prune K cands = take K (sort_key cand_key cands)"

text \<open>
  Modelled from the spec: one frame of the missing beam decoder (section 4.3): expand
  every surviving hypothesis, merge, prune.
\<close>

definition beam_step :: "(nat \<Rightarrow> nat \<Rightarrow> real) \<Rightarrow> nat \<Rightarrow> nat \<Rightarrow> nat \<Rightarrow> hyp list \<Rightarrow> hyp list" where
  "beam_step c N K i hyps =
     map snd (prune K (merge_cands N (concat (map (expand c N i) hyps))))"

text \<open>
  Modelled from the spec: the frames of the missing beam decoder in order (section 4.3).
\<close>

fun beam_frames ::
  "(nat \<Rightarrow> nat \<Rightarrow> real) \<Rightarrow> nat \<Rightarrow> nat \<Rightarrow> hyp list \<Rightarrow> nat list \<Rightarrow> hyp list" where
  "beam_frames c N K hyps [] = hyps"
| "beam_frames c N K hyps (i # rest) = beam_frames c N K (beam_step c N K i hyps) rest"

text \<open>
  Modelled from the spec: the search of the missing beam decoder (section 4.3): at frame
  0 the only hypothesis is \<open>(cost(0,0), 0)\<close>; then every frame up to \<open>T-1\<close>.
\<close>

definition beam_search :: "(nat \<Rightarrow> nat \<Rightarrow> real) \<Rightarrow> nat \<Rightarrow> nat \<Rightarrow> nat \<Rightarrow> hyp list" where
  "beam_search c N K T =
     beam_frames c N K [\<lparr>hcost = c 0 0, htok = 0, hpath = [0]\<rparr>] [1..<T]"

text \<open>
  Modelled from the spec: the final selection of the missing beam decoder (section 4.3):
  the surviving hypothesis at token index \<open>N-1\<close> with minimum cumulative cost, if any.
\<close>

definition best_final :: "nat \<Rightarrow> hyp list \<Rightarrow> hyp option" where
  "best_final N hyps =
     (case filter (\<lambda>h. htok h = N - 1) hyps of
        [] \<Rightarrow> None
      | h # hs \<Rightarrow> Some (fold (\<lambda>a b. if hcost a < hcost b then a else b) hs h))"

text \<open>
  Modelled from the spec: the missing \<open>decode_beam\<close> (sections 4.3 and 7): the eager
  check, the failure for \<open>T < N\<close>, the search, and BeamExhausted when no surviving
  hypothesis reached the last token.
\<close>

definition decode_beam :: "real \<Rightarrow> nat \<Rightarrow> posterior \<Rightarrow> nat list \<Rightarrow> decode_error + nat list" where
  "decode_beam eps K P toks =
     (if invalid_input P toks then Inl InvalidInput
      else if frames P < length toks then Inl InfeasibleAlignment
      else case best_final (length toks)
                  (beam_search (cost eps P toks) (length toks) K (frames P)) of
             None \<Rightarrow> Inl BeamExhausted
           | Some h \<Rightarrow> Inr (hpath h))"

text \<open>
  Modelled from the spec: the hypothesis of section 4.3 that stands for the cell
  \<open>(i, j)\<close> of the exact decoder's table of section 4.2: the path backtracked from the
  cell, and its total cost. It relates the two decoders.
\<close>

definition cell_hyp :: "(nat \<Rightarrow> nat \<Rightarrow> real) \<Rightarrow> nat \<Rightarrow> nat \<Rightarrow> hyp" where
  "cell_hyp c i j =
     \<lparr>hcost = path_cost c (backtrack c i j), htok = j, hpath = backtrack c i j\<rparr>"

text \<open>
  Modelled from the spec: a beam that holds, at frame \<open>i\<close>, exactly one hypothesis for
  every reachable cell of the row and that of the exact decoder (sections 4.2 and 4.3).
\<close>

definition holds_row :: "(nat \<Rightarrow> nat \<Rightarrow> real) \<Rightarrow> nat \<Rightarrow> nat \<Rightarrow> hyp list \<Rightarrow> bool" where
  "holds_row c N i hyps \<longleftrightarrow>
     distinct (map htok hyps) \<and> set hyps = cell_hyp c i ` {j. j \<le> i \<and> j < N}"

section \<open>Aligner.forward and the step buffer\<close>

lemma step_forward: "step (fst (forward net m x)) = step m + 1"
  by (simp add: forward_def train_attr_truthy_def)

lemma step_forward_calls:
  "step (forward_calls net m xs) = step m + of_nat (length xs)"
  by (induction xs arbitrary: m) (simp_all add: step_forward)

text \<open>
  C9 (as amended). Every call to \<open>forward\<close> adds 1 to the 32-bit \<open>step\<close> buffer,
  in training mode and in evaluation mode alike, because the guard tests the bound method
  \<^verbatim>\<open>self.train\<close>. The addition wraps at the width of the buffer: the step after a
  call differs from the step before it, and the steps seen by two calls fewer than
  \<open>2 ^ 32\<close> calls apart differ.
\<close>

theorem forward_increments_step:
  "step (fst (forward net m x)) = step m + 1
   \<and> step (fst (forward net (m\<lparr>training := False\<rparr>) x)) = step m + 1
   \<and> step (fst (forward net (m\<lparr>training := True\<rparr>) x)) = step m + 1
   \<and> step (fst (forward net m x)) \<noteq> step m
   \<and> (0 < length xs \<and> length xs < 2 ^ 32 \<longrightarrow> step (forward_calls net m xs) \<noteq> step m)"
proof -
  have a: "\<And>m. step (fst (forward net m x)) = step m + 1" by (rule step_forward)
  have b: "step (forward_calls net m xs) \<noteq> step m" if "0 < length xs" "length xs < 2 ^ 32"
  proof
    assume "step (forward_calls net m xs) = step m"
    then have "(of_nat (length xs) :: 32 word) = 0"
      by (simp add: step_forward_calls)
    then have "length xs mod 2 ^ 32 = 0"
      by (simp add: word_of_nat_eq_0_iff take_bit_eq_mod)
    with that show False by simp
  qed
  show ?thesis using a b by simp
qed

theorem forward_increments_step_witness:
  "step (fst (forward zero_net (new_aligner dijkstra ''out'') [])) = 2
   \<and> step (forward_calls zero_net (new_aligner dijkstra ''out'') [[], []]) = 3"
  using forward_increments_step [of zero_net "new_aligner dijkstra ''out''" "[]" "[[], []]"]
  by (simp add: new_aligner_def forward_def train_attr_truthy_def)

text \<open>
  The claim as stated fails where the buffer wraps: at the largest 32-bit value the
  signed step after a call is the smallest value, not one more, and \<open>2 ^ 32\<close> calls
  later a call sees the step it started from.
\<close>

theorem forward_step_wraps:
  "sint (step aligner_at_int_max) = 2147483647
   \<and> sint (step (fst (forward zero_net aligner_at_int_max []))) = - 2147483648
   \<and> step (forward_calls zero_net aligner_at_int_max (replicate (2 ^ 32) []))
       = step aligner_at_int_max"
  by (simp add: step_forward step_forward_calls aligner_at_int_max_def new_aligner_def)

section \<open>The rendered duration representation\<close>

lemma join_empty_sep: "join [] ps = concat ps"
  by (induction "[] :: string" ps rule: join.induct) simp_all

lemma duration_parts_ok:
  "i + length toks \<le> length durs \<Longrightarrow>
   duration_parts durs i toks = Inr (map2 str_mul toks (drop i durs))"
proof (induction toks arbitrary: i)
  case Nil
  then show ?case by simp
next
  case (Cons c cs)
  then have i: "i < length durs" by simp
  have d: "drop i durs = durs ! i # drop (Suc i) durs"
    using i by (simp add: Cons_nth_drop_Suc)
  from Cons have "duration_parts durs (Suc i) cs = Inr (map2 str_mul cs (drop (Suc i) durs))"
    by simp
  then show ?case using i d by (simp add: py_index_def)
qed

lemma length_str_mul: "length (str_mul c d) = length c * nat d"
  by (simp add: str_mul_def length_concat sum_list_replicate mult.commute)

lemma occurrences_length:
  "length toks = length durs \<Longrightarrow> \<forall>d \<in> set durs. 0 \<le> d \<Longrightarrow>
   int (length (concat (map2 (\<lambda>c d. replicate (nat d) c) toks durs))) = sum_list durs"
  by (induction toks durs rule: list_induct2) simp_all

lemma occurrences_concat:
  "concat (concat (map2 (\<lambda>c d. replicate (nat d) c) toks durs))
     = concat (map2 str_mul toks durs)"
  by (induction toks durs rule: list_induct2') (simp_all add: str_mul_def)

lemma chars_length:
  "length toks = length durs \<Longrightarrow> \<forall>d \<in> set durs. 0 \<le> d \<Longrightarrow>
   int (length (concat (map2 str_mul toks durs)))
     = sum_list (map2 (\<lambda>c d. int (length c) * d) toks durs)"
  by (induction toks durs rule: list_induct2) (simp_all add: length_str_mul)

lemma single_chars:
  "length toks = length durs \<Longrightarrow> \<forall>c \<in> set toks. length c = 1 \<Longrightarrow>
   sum_list (map2 (\<lambda>c d. int (length c) * d) toks durs) = sum_list durs"
  by (induction toks durs rule: list_induct2) simp_all

text \<open>
  C8 (as amended). With one duration per token and no negative duration, the rendering
  is the concatenation, in sequence order, of each token repeated \<open>durations[i]\<close>
  times: it holds \<open>sum(durations)\<close> token occurrences, its length in characters is the
  sum of \<open>len(token) * durations[i]\<close>, and that is \<open>sum(durations)\<close> when every token
  is a single character.
\<close>

theorem target_duration_rep_tokens:
  assumes "length toks = length durs" and "\<forall>d \<in> set durs. 0 \<le> d"
  shows "target_duration_rep toks durs
           = Inr (concat (concat (map2 (\<lambda>c d. replicate (nat d) c) toks durs)))
         \<and> int (length (concat (map2 (\<lambda>c d. replicate (nat d) c) toks durs))) = sum_list durs
         \<and> (\<forall>r. target_duration_rep toks durs = Inr r \<longrightarrow>
               int (length r) = sum_list (map2 (\<lambda>c d. int (length c) * d) toks durs))
         \<and> (\<forall>r. target_duration_rep toks durs = Inr r \<and> (\<forall>c \<in> set toks. length c = 1) \<longrightarrow>
               int (length r) = sum_list durs)"
proof -
  have r: "target_duration_rep toks durs = Inr (concat (map2 str_mul toks durs))"
    using assms(1) by (simp add: target_duration_rep_def duration_parts_ok join_empty_sep)
  show ?thesis
    using assms r
    by (simp add: occurrences_concat occurrences_length chars_length single_chars)
qed

theorem target_duration_rep_tokens_witness:
  "target_duration_rep [''ch'', ''a''] [2, 1] = Inr ''chcha''
   \<and> target_duration_rep [''b'', ''a''] [2, 1] = Inr ''bba''"
  using target_duration_rep_tokens [of "[''ch'', ''a'']" "[2, 1]"]
        target_duration_rep_tokens [of "[''b'', ''a'']" "[2, 1]"]
  by (simp add: numeral_2_eq_2)

text \<open>
  The claim as stated fails for a token of more than one character: the rendering of
  \<open>ch\<close> twice and \<open>a\<close> once has five characters, and the durations sum to three.
\<close>

theorem target_duration_rep_counterexample:
  "target_duration_rep [''ch'', ''a''] [2, 1] = Inr ''chcha''
   \<and> int (length ''chcha'') \<noteq> sum_list [2, 1]"
  by (simp add: target_duration_rep_def py_index_def str_mul_def numeral_2_eq_2)

section \<open>The selector and the decoder invoked\<close>

lemma method_cases: "s = beam \<or> s = dijkstra"
  by (cases s) simp_all

lemma method_of_value_iff: "method_of_value v = Some s \<longleftrightarrow> v = method_value s"
  by (cases s) (auto simp: method_of_value_def)

lemma generate_plots_fresh:
  "longest_mel m = None \<Longrightarrow>
   snd (generate_plots ev m mel_in toks g) =
     (case py_index (layers ev mel_in) 0 of
        Inl e \<Rightarrow> Inl e
      | Inr out0 \<Rightarrow>
          (case target_duration_rep
                  (tokenize ev (decode_tokens ev (squeeze toks)))
                  (extractor ev dijkstra (squeeze0 toks) (map softmax out0)) of
             Inl e \<Rightarrow> Inl e
           | Inr rep \<Rightarrow>
               Inr \<lparr>durations = extractor ev dijkstra (squeeze0 toks) (map softmax out0),
                    texts = [(''validation/prediction'',
                              ''    '' @ decode_tokens ev (Vec (argmax_rows ev (map softmax out0))), g),
                             (''validation/target'',
                              ''    '' @ decode_tokens ev (squeeze toks), g),
                             (''validation/target_duration_rep'', ''    '' @ rep, g)]\<rparr>))"
  by (simp add: generate_plots_def forward_def train_attr_truthy_def Let_def
        split: sum.splits)

lemma generate_plots_kept:
  "longest_mel m = Some lm \<Longrightarrow>
   snd (generate_plots ev m mel_in toks g) =
     (case py_index (layers ev lm) 0 of
        Inl e \<Rightarrow> Inl e
      | Inr out0 \<Rightarrow>
      (case longest_tokens m of
         None \<Rightarrow> Inl AttributeError
       | Some lt \<Rightarrow>
          (case target_duration_rep
                  (tokenize ev (decode_tokens ev (squeeze lt)))
                  (extractor ev dijkstra (squeeze0 lt) (map softmax out0)) of
             Inl e \<Rightarrow> Inl e
           | Inr rep \<Rightarrow>
               Inr \<lparr>durations = extractor ev dijkstra (squeeze0 lt) (map softmax out0),
                    texts = [(''validation/prediction'',
                              ''    '' @ decode_tokens ev (Vec (argmax_rows ev (map softmax out0))), g),
                             (''validation/target'',
                              ''    '' @ decode_tokens ev (squeeze lt), g),
                             (''validation/target_duration_rep'', ''    '' @ rep, g)]\<rparr>)))"
  by (simp add: generate_plots_def forward_def train_attr_truthy_def Let_def
        split: sum.splits option.splits)

lemma py_index_0: "py_index xs 0 = Inr y \<Longrightarrow> y = hd xs"
  by (cases xs) (simp_all add: py_index_def)

text \<open>
  C7 (as amended). The selector has exactly two values, \<open>beam\<close> and \<open>dijkstra\<close>,
  and only their two strings name one. \<^verbatim>\<open>_generate_plots\<close> does not read the
  selector: whatever it holds, the durations logged are those of the dijkstra decoder,
  applied to the retained tokens and the softmax of the network output for the retained
  mel batch.
\<close>

theorem generate_plots_uses_dijkstra:
  "(\<forall>s. s = beam \<or> s = dijkstra) \<and> beam \<noteq> dijkstra
   \<and> (\<forall>v s. method_of_value v = Some s \<longleftrightarrow> v = method_value s)
   \<and> snd (generate_plots ev (m\<lparr>extraction_method := sel\<rparr>) mel_in toks g)
       = snd (generate_plots ev m mel_in toks g)
   \<and> (longest_mel m = None \<and> snd (generate_plots ev m mel_in toks g) = Inr p \<longrightarrow>
        durations p = extractor ev dijkstra (squeeze0 toks) (map softmax (hd (layers ev mel_in))))
   \<and> (longest_mel m = Some lm \<and> snd (generate_plots ev m mel_in toks g) = Inr p \<longrightarrow>
        (\<exists>lt. longest_tokens m = Some lt \<and>
          durations p = extractor ev dijkstra (squeeze0 lt) (map softmax (hd (layers ev lm)))))"
proof -
  have sel: "snd (generate_plots ev (m\<lparr>extraction_method := sel\<rparr>) mel_in toks g)
       = snd (generate_plots ev m mel_in toks g)"
  proof (cases "longest_mel m")
    case None
    then show ?thesis by (simp add: generate_plots_fresh)
  next
    case (Some lm')
    then show ?thesis by (simp add: generate_plots_kept cong: sum.case_cong)
  qed
  have fresh: "durations p
       = extractor ev dijkstra (squeeze0 toks) (map softmax (hd (layers ev mel_in)))"
    if "longest_mel m = None" "snd (generate_plots ev m mel_in toks g) = Inr p"
    using that by (auto simp: generate_plots_fresh split: sum.splits dest: py_index_0)
  have kept: "\<exists>lt. longest_tokens m = Some lt \<and>
       durations p = extractor ev dijkstra (squeeze0 lt) (map softmax (hd (layers ev lm)))"
    if "longest_mel m = Some lm" "snd (generate_plots ev m mel_in toks g) = Inr p"
    using that
    by (auto simp: generate_plots_kept split: sum.splits option.splits dest: py_index_0)
  show ?thesis
    using sel fresh kept method_cases method_of_value_iff by blast
qed

lemma softmax_single: "softmax [x] = [1]"
  by (simp add: softmax_def)

lemma sample_plot:
  "snd (generate_plots sample_env (new_aligner s ''out'') [[[0]]] [[0, 1]] 7)
     = Inr \<lparr>durations = [2, 1],
            texts = [(''validation/prediction'', ''    ab'', 7),
                     (''validation/target'', ''    ab'', 7),
                     (''validation/target_duration_rep'', ''    aab'', 7)]\<rparr>"
  by (simp add: generate_plots_def forward_def train_attr_truthy_def new_aligner_def
        sample_env_def zero_net_def two_decoders_def py_index_def softmax_single
        target_duration_rep_def str_mul_def numeral_2_eq_2)

theorem generate_plots_uses_dijkstra_witness:
  "durations \<lparr>durations = [2, 1],
            texts = [(''validation/prediction'', ''    ab'', 7),
                     (''validation/target'', ''    ab'', 7),
                     (''validation/target_duration_rep'', ''    aab'', 7)]\<rparr>
     = extractor sample_env dijkstra (squeeze0 [[0, 1]]) (map softmax (hd (layers sample_env [[[0]]])))"
  using generate_plots_uses_dijkstra
          [where ev = sample_env and m = "new_aligner dijkstra ''out''" and sel = beam
             and mel_in = "[[[0]]]" and toks = "[[0, 1]]" and g = 7
             and p = "\<lparr>durations = [2, 1],
            texts = [(''validation/prediction'', ''    ab'', 7),
                     (''validation/target'', ''    ab'', 7),
                     (''validation/target_duration_rep'', ''    aab'', 7)]\<rparr>"]
        sample_plot [of dijkstra]
  by (simp add: new_aligner_def)

text \<open>
  The claim as stated fails with the selector set to \<open>beam\<close>: the durations logged
  are the dijkstra decoder's, not the beam decoder's.
\<close>

theorem generate_plots_ignores_selector:
  "extraction_method (new_aligner beam ''out'') = beam
   \<and> map_sum id durations (snd (generate_plots sample_env (new_aligner beam ''out'') [[[0]]] [[0, 1]] 7))
       = Inr [2, 1]
   \<and> extractor sample_env beam (squeeze0 [[0, 1]]) [[1]] = [1, 2]
   \<and> extractor sample_env dijkstra (squeeze0 [[0, 1]]) [[1]] = [2, 1]"
  using sample_plot [of beam]
  by (simp add: sample_env_def two_decoders_def new_aligner_def)

section \<open>predict_step saves posterior matrices\<close>

lemma sum_list_divide: "sum_list (map (\<lambda>x. f x / c) xs) = sum_list (map f xs) / (c::real)"
  by (induction xs) (simp_all add: add_divide_distrib)

lemma sum_exp_pos: "xs \<noteq> [] \<Longrightarrow> 0 < sum_list (map exp (xs :: real list))"
proof (induction xs)
  case Nil
  then show ?case by simp
next
  case (Cons x xs)
  have "0 \<le> sum_list (map exp xs)" by (rule sum_list_nonneg) auto
  moreover have "0 < exp x" by simp
  ultimately show ?case by (simp add: add_pos_nonneg)
qed

lemma softmax_sums_to_1: "xs \<noteq> [] \<Longrightarrow> sum_list (softmax xs) = 1"
  using sum_exp_pos [of xs] by (simp add: softmax_def sum_list_divide)

lemma softmax_length: "length (softmax xs) = length xs"
  by (simp add: softmax_def)

lemma softmax_pos: "p \<in> set (softmax xs) \<Longrightarrow> 0 < p"
proof -
  assume "p \<in> set (softmax xs)"
  then obtain x where "x \<in> set xs" "p = exp x / sum_list (map exp xs)"
    by (auto simp: softmax_def)
  moreover from this have "0 < sum_list (map exp xs)" by (intro sum_exp_pos) auto
  ultimately show ?thesis by simp
qed

lemma predict_item_ok:
  assumes "b < length (b_mel_len bt)" "b < length pred_batch" "b < length (b_basename bt)"
    "b < length (b_speaker bt)" "b < length (b_language bt)" "0 \<le> b_mel_len bt ! b"
  shows "predict_item m pred_batch bt b =
     Inr ([save_dir m, ''duration'',
           b_basename bt ! b @ ''--'' @ b_speaker bt ! b @ ''--'' @ b_language bt ! b
             @ ''--duration.npy''],
          map softmax (take (nat (b_mel_len bt ! b)) (pred_batch ! b)))"
  using assms by (simp add: predict_item_def py_index_def slice_upto_def)

lemma predict_loop_ok:
  assumes "\<forall>b \<in> set bs. b < length (b_mel_len bt) \<and> b < length pred_batch
             \<and> b < length (b_basename bt) \<and> b < length (b_speaker bt)
             \<and> b < length (b_language bt) \<and> 0 \<le> b_mel_len bt ! b"
  shows "predict_loop m pred_batch bt bs saved =
     (saved @ map (\<lambda>b. ([save_dir m, ''duration'',
           b_basename bt ! b @ ''--'' @ b_speaker bt ! b @ ''--'' @ b_language bt ! b
             @ ''--duration.npy''],
          map softmax (take (nat (b_mel_len bt ! b)) (pred_batch ! b)))) bs, None)"
  using assms
proof (induction bs arbitrary: saved)
  case Nil
  then show ?case by simp
next
  case (Cons b bs)
  then show ?case by (simp add: predict_item_ok)
qed

lemma predict_item_tokens:
  "predict_item m pred_batch (bt\<lparr>b_tokens := toks'\<rparr>) b = predict_item m pred_batch bt b"
  by (simp add: predict_item_def split: sum.splits)

lemma predict_loop_tokens:
  "predict_loop m pred_batch (bt\<lparr>b_tokens := toks'\<rparr>) bs saved
     = predict_loop m pred_batch bt bs saved"
  by (induction bs arbitrary: saved) (simp_all add: predict_item_tokens split: sum.splits)

text \<open>
  C10. For a batch whose per-item lists cover every item and whose \<open>mel_len[b]\<close> lies
  between 0 and the number of frames of the network output, \<open>predict_step\<close> saves, for
  every item \<open>b\<close> in order, to the path
  \<open>save_dir/duration/<basename>--<speaker>--<language>--duration.npy\<close>, the row-wise
  softmax of the network output cut to its first \<open>mel_len[b]\<close> frames: a matrix of
  \<open>mel_len[b]\<close> rows, each with one positive entry per symbol, summing to 1. The
  saves do not depend on the token rows, only on how many there are: no duration is
  extracted.
\<close>

theorem predict_step_saves_posteriors:
  assumes "B = length (b_tokens bt)"
    and "B \<le> length (b_mel_len bt)" and "B \<le> length (b_basename bt)"
    and "B \<le> length (b_speaker bt)" and "B \<le> length (b_language bt)"
    and "B \<le> length (net (b_mel bt))"
    and "\<forall>b<B. 0 \<le> b_mel_len bt ! b \<and> b_mel_len bt ! b \<le> int (length (net (b_mel bt) ! b))"
  shows "snd (predict_step net m bt) =
           (map (\<lambda>b. ([save_dir m, ''duration'',
                        b_basename bt ! b @ ''--'' @ b_speaker bt ! b @ ''--''
                          @ b_language bt ! b @ ''--duration.npy''],
                       map softmax (take (nat (b_mel_len bt ! b)) (net (b_mel bt) ! b))))
                [0..<B], None)
         \<and> (\<forall>b<B. length (snd (fst (snd (predict_step net m bt)) ! b))
                     = nat (b_mel_len bt ! b)
                \<and> (\<forall>i < nat (b_mel_len bt ! b).
                      length (snd (fst (snd (predict_step net m bt)) ! b) ! i)
                        = length (net (b_mel bt) ! b ! i)
                      \<and> (\<forall>p \<in> set (snd (fst (snd (predict_step net m bt)) ! b) ! i). 0 < p)
                      \<and> (net (b_mel bt) ! b ! i \<noteq> [] \<longrightarrow>
                           sum_list (snd (fst (snd (predict_step net m bt)) ! b) ! i) = 1)))
         \<and> (\<forall>toks'. length toks' = B \<longrightarrow>
               snd (predict_step net m (bt\<lparr>b_tokens := toks'\<rparr>)) = snd (predict_step net m bt))"
proof -
  let ?save = "\<lambda>b. ([save_dir m, ''duration'',
                        b_basename bt ! b @ ''--'' @ b_speaker bt ! b @ ''--''
                          @ b_language bt ! b @ ''--duration.npy''],
                       map softmax (take (nat (b_mel_len bt ! b)) (net (b_mel bt) ! b)))"
  have fw: "forward net m (b_mel bt) = (fst (forward net m (b_mel bt)), net (b_mel bt))"
    by (simp add: forward_def)
  have sd: "save_dir (fst (forward net m (b_mel bt))) = save_dir m"
    by (simp add: forward_def train_attr_truthy_def)
  have loop: "predict_loop (fst (forward net m (b_mel bt))) (net (b_mel bt)) bt [0..<B] []
                = (map ?save [0..<B], None)"
    using assms by (subst predict_loop_ok) (auto simp: sd)
  have main: "snd (predict_step net m bt) = (map ?save [0..<B], None)"
    using loop assms(1) by (subst predict_step_def, subst fw) simp
  have nth: "fst (snd (predict_step net m bt)) ! b = ?save b" if "b < B" for b
    using that by (simp add: main)
  have shape: "length (snd (fst (snd (predict_step net m bt)) ! b)) = nat (b_mel_len bt ! b)
       \<and> (\<forall>i < nat (b_mel_len bt ! b).
             length (snd (fst (snd (predict_step net m bt)) ! b) ! i)
               = length (net (b_mel bt) ! b ! i)
             \<and> (\<forall>p \<in> set (snd (fst (snd (predict_step net m bt)) ! b) ! i). 0 < p)
             \<and> (net (b_mel bt) ! b ! i \<noteq> [] \<longrightarrow>
                  sum_list (snd (fst (snd (predict_step net m bt)) ! b) ! i) = 1))"
    if "b < B" for b
  proof -
    from that assms(7) have le: "nat (b_mel_len bt ! b) \<le> length (net (b_mel bt) ! b)"
      by auto
    then show ?thesis
      unfolding nth [OF that]
      by (auto simp: softmax_length softmax_sums_to_1 dest: softmax_pos)
  qed
  have toks: "snd (predict_step net m (bt\<lparr>b_tokens := toks'\<rparr>)) = snd (predict_step net m bt)"
    if "length toks' = B" for toks'
    using that assms(1)
    by (simp add: predict_step_def predict_loop_tokens split_beta)
  from main shape toks show ?thesis
    by blast
qed

lemma softmax_pair: "softmax [0, 0] = [1 / 2, 1 / 2]"
  by (simp add: softmax_def)

theorem predict_step_saves_posteriors_witness:
  "snd (predict_step flat_net (new_aligner beam ''out'') sample_batch)
     = ([([''out'', ''duration'', ''utt1--spk--eng--duration.npy''],
          [[1 / 2, 1 / 2], [1 / 2, 1 / 2]])], None)"
  using predict_step_saves_posteriors
          [where B = 1 and bt = sample_batch and net = flat_net
             and m = "new_aligner beam ''out''"]
  by (simp add: sample_batch_def flat_net_def new_aligner_def softmax_pair numeral_2_eq_2)

section \<open>The exact decoder: table, backtracking and lower bound\<close>

lemma ele_refl: "ele a a"
  by (cases a) simp_all

lemma ele_trans: "ele a b \<Longrightarrow> ele b d \<Longrightarrow> ele a d"
  by (cases a; cases b; cases d) simp_all

lemma ele_antisym: "ele a b \<Longrightarrow> ele b a \<Longrightarrow> a = b"
  by (cases a; cases b) simp_all

lemma ele_total: "ele a b \<or> ele b a"
  by (cases a; cases b) auto

lemma emin_le1: "ele (emin a b) a"
  using ele_total [of a b] by (auto simp: emin_def ele_refl)

lemma emin_le2: "ele (emin a b) b"
  by (simp add: emin_def ele_refl)

lemma eadd_mono: "ele a b \<Longrightarrow> ele (eadd x a) (eadd x b)"
  by (cases a; cases b) simp_all

lemma best_unreachable: "i < j \<Longrightarrow> best c i j = PInf"
  by (induction i arbitrary: j) (simp_all add: emin_def)

lemma best_reachable: "j \<le> i \<Longrightarrow> \<exists>r. best c i j = Fin r"
proof (induction i arbitrary: j)
  case 0
  then show ?case by simp
next
  case (Suc i)
  show ?case
  proof (cases "j \<le> i")
    case True
    then obtain r where "best c i j = Fin r" using Suc.IH by blast
    then show ?thesis
      by (cases "if j = 0 then PInf else best c i (j - 1)") (simp_all add: emin_def)
  next
    case False
    with Suc.prems have j: "j = Suc i" by simp
    then obtain r where "best c i (j - 1) = Fin r" using Suc.IH [of "j - 1"] by auto
    then show ?thesis using j by (simp add: emin_def best_unreachable)
  qed
qed

lemma best_PInf_iff: "best c i j = PInf \<longleftrightarrow> i < j"
  using best_reachable [of j i c] best_unreachable [of i j c]
  by (cases "i < j") auto

lemma steps_ok_snoc:
  "steps_ok (p @ [y]) \<longleftrightarrow> p = [] \<or> (steps_ok p \<and> (y = last p \<or> y = Suc (last p)))"
  by (induction p rule: steps_ok.induct) auto

lemma path_cost_snoc: "path_cost c (p @ [j]) = path_cost c p + c (length p) j"
  by (simp add: path_cost_def nth_append)

lemma came_from_pred_le:
  "j \<le> Suc i \<Longrightarrow> (case came_from c (Suc i) j of Advance \<Rightarrow> j - 1 | Stay \<Rightarrow> j) \<le> i"
proof (cases "came_from c (Suc i) j")
  case Stay
  assume "j \<le> Suc i"
  show ?thesis
  proof (cases "j = 0")
    case True
    then show ?thesis using Stay by simp
  next
    case False
    with Stay have "\<not> ele (best c i (j - 1)) (best c i j)"
      by (simp add: came_from_def split: if_splits)
    then have "best c i j \<noteq> PInf" by auto
    then have "j \<le> i" by (simp add: best_PInf_iff)
    then show ?thesis using Stay by simp
  qed
next
  case Advance
  assume "j \<le> Suc i"
  then show ?thesis using Advance by simp
qed

lemma best_Suc_pred:
  "best c (Suc i) j =
     eadd (c (Suc i) j) (best c i (case came_from c (Suc i) j of Advance \<Rightarrow> j - 1 | Stay \<Rightarrow> j))"
proof (cases "j = 0")
  case True
  then show ?thesis by (simp add: came_from_def emin_def)
next
  case False
  show ?thesis
  proof (cases "ele (best c i (j - 1)) (best c i j)")
    case True
    then have "emin (best c i j) (best c i (j - 1)) = best c i (j - 1)"
      by (auto simp: emin_def dest: ele_antisym)
    then show ?thesis using False True by (simp add: came_from_def)
  next
    case no: False
    then have "ele (best c i j) (best c i (j - 1))" using ele_total by blast
    then show ?thesis using False no by (simp add: came_from_def emin_def)
  qed
qed

lemma backtrack_path:
  "j \<le> i \<Longrightarrow>
   length (backtrack c i j) = Suc i \<and> hd (backtrack c i j) = 0 \<and> last (backtrack c i j) = j
   \<and> steps_ok (backtrack c i j) \<and> best c i j = Fin (path_cost c (backtrack c i j))"
proof (induction i arbitrary: j)
  case 0
  then show ?case by (simp add: path_cost_def)
next
  case (Suc i)
  let ?k = "case came_from c (Suc i) j of Advance \<Rightarrow> j - 1 | Stay \<Rightarrow> j"
  have k: "?k \<le> i" using Suc.prems by (rule came_from_pred_le)
  note ih = Suc.IH [OF k]
  have ne: "backtrack c i ?k \<noteq> []" using ih by auto
  have step: "j = ?k \<or> j = Suc ?k"
    by (cases "came_from c (Suc i) j") (auto simp: came_from_def split: if_splits)
  have len: "length (backtrack c (Suc i) j) = Suc (Suc i)" using ih by simp
  have hd0: "hd (backtrack c (Suc i) j) = 0" using ih ne by simp
  have lst: "last (backtrack c (Suc i) j) = j" by simp
  have ok: "steps_ok (backtrack c (Suc i) j)"
    using ih step by (simp add: steps_ok_snoc)
  have "best c (Suc i) j = eadd (c (Suc i) j) (best c i ?k)" by (rule best_Suc_pred)
  also have "\<dots> = Fin (c (Suc i) j + path_cost c (backtrack c i ?k))" using ih by simp
  also have "\<dots> = Fin (path_cost c (backtrack c (Suc i) j))"
    using ih by (simp add: path_cost_snoc)
  finally show ?case using len hd0 lst ok by blast
qed

lemma best_lower_bound:
  "p \<noteq> [] \<Longrightarrow> hd p = 0 \<Longrightarrow> steps_ok p \<Longrightarrow>
   ele (best c (length p - 1) (last p)) (Fin (path_cost c p))"
proof (induction p rule: rev_induct)
  case Nil
  then show ?case by simp
next
  case (snoc y p)
  show ?case
  proof (cases "p = []")
    case True
    with snoc.prems show ?thesis by (simp add: path_cost_def)
  next
    case False
    from snoc.prems False have ok: "steps_ok p" and y: "y = last p \<or> y = Suc (last p)"
      and h: "hd p = 0"
      by (simp_all add: steps_ok_snoc)
    note ih = snoc.IH [OF False h ok]
    obtain n where n: "length p = Suc n" using False by (cases p) auto
    let ?m = "emin (best c n y) (if y = 0 then PInf else best c n (y - 1))"
    have "ele ?m (best c n (last p))"
    proof (cases "y = last p")
      case True
      then show ?thesis using emin_le1 by simp
    next
      case no: False
      with y have "y = Suc (last p)" by simp
      then show ?thesis using emin_le2 [of "best c n y" "best c n (last p)"] by simp
    qed
    then have "ele ?m (Fin (path_cost c p))" using ih n by (auto intro: ele_trans)
    then have "ele (eadd (c (Suc n) y) ?m) (eadd (c (Suc n) y) (Fin (path_cost c p)))"
      by (rule eadd_mono)
    then show ?thesis using n by (simp add: path_cost_snoc add.commute)
  qed
qed

section \<open>Optimality of the exact decoder\<close>

lemma decode_exact_ok:
  assumes "\<not> invalid_input P toks" and "length toks \<le> frames P"
  shows "decode_exact eps P toks
           = Inr (backtrack (cost eps P toks) (frames P - 1) (length toks - 1))"
proof -
  have "length toks - 1 \<le> frames P - 1" using assms(2) by simp
  then obtain r where "best (cost eps P toks) (frames P - 1) (length toks - 1) = Fin r"
    using best_reachable by blast
  then show ?thesis using assms by (simp add: decode_exact_def)
qed

lemma decode_exact_valid_path:
  assumes "\<not> invalid_input P toks" and "length toks \<le> frames P"
    and "decode_exact eps P toks = Inr p"
  shows "valid_path (length toks) p \<and> length p = frames P
         \<and> best (cost eps P toks) (frames P - 1) (length toks - 1)
             = Fin (path_cost (cost eps P toks) p)"
proof -
  have le: "length toks - 1 \<le> frames P - 1" using assms(2) by simp
  have pos: "0 < length toks" "0 < frames P"
    using assms(1) by (simp_all add: invalid_input_def)
  have p: "p = backtrack (cost eps P toks) (frames P - 1) (length toks - 1)"
    using decode_exact_ok [OF assms(1,2)] assms(3) by simp
  from backtrack_path [OF le, of "cost eps P toks"] pos show ?thesis
    unfolding p valid_path_def by auto
qed

text \<open>
  C1. For every posterior matrix and token sequence that pass the input check, with
  \<open>T \<ge> N\<close>, \<open>decode_exact\<close> returns a monotonic alignment path of \<open>T\<close> frames, and
  no monotonic alignment path of \<open>T\<close> frames (from token 0 to token \<open>N-1\<close>, each step
  staying or advancing by one) has a strictly lower total cost.
\<close>

theorem decode_exact_optimal:
  assumes "\<not> invalid_input P toks" and "length toks \<le> frames P"
  shows "\<exists>p. decode_exact eps P toks = Inr p
             \<and> valid_path (length toks) p \<and> length p = frames P
             \<and> (\<forall>q. valid_path (length toks) q \<and> length q = frames P \<longrightarrow>
                    path_cost (cost eps P toks) p \<le> path_cost (cost eps P toks) q)"
proof -
  let ?c = "cost eps P toks"
  let ?p = "backtrack ?c (frames P - 1) (length toks - 1)"
  have dec: "decode_exact eps P toks = Inr ?p" using assms by (rule decode_exact_ok)
  note vp = decode_exact_valid_path [OF assms dec]
  have "path_cost ?c ?p \<le> path_cost ?c q"
    if q: "valid_path (length toks) q" "length q = frames P" for q
  proof -
    from q have "ele (best ?c (length q - 1) (last q)) (Fin (path_cost ?c q))"
      by (intro best_lower_bound) (simp_all add: valid_path_def)
    then have "ele (best ?c (frames P - 1) (length toks - 1)) (Fin (path_cost ?c q))"
      using q by (simp add: valid_path_def)
    then show ?thesis using vp by simp
  qed
  then show ?thesis using dec vp by blast
qed

lemma ln_half: "ln (1 / 2 :: real) = - ln 2"
  by (simp add: ln_div)

lemma dominant_backtrack: "backtrack (cost (1 / 2) dominant [0, 1, 2]) 3 2 = [0, 0, 1, 2]"
proof -
  define c where "c = cost (1 / 2) dominant [0, 1, 2]"
  have c: "c i j = (if [0, 1, 2 :: nat] ! j = [0, 0, 1, 2 :: nat] ! i then 0 else ln 2)" for i j
    by (simp add: c_def cost_def dominant_def floored_def ln_half)
  have pos: "0 < ln (2 :: real)" by simp
  have "backtrack c 3 2 = [0, 0, 1, 2]"
    using pos by (simp add: eval_nat_numeral came_from_def emin_def c)
  then show ?thesis by (simp add: c_def)
qed

theorem decode_exact_optimal_witness:
  "decode_exact (1 / 2) dominant [0, 1, 2] = Inr [0, 0, 1, 2]
   \<and> path_cost (cost (1 / 2) dominant [0, 1, 2]) [0, 0, 1, 2]
       \<le> path_cost (cost (1 / 2) dominant [0, 1, 2]) [0, 1, 2, 2]"
proof -
  have v: "\<not> invalid_input dominant [0, 1, 2]" "length [0, 1, 2 :: nat] \<le> frames dominant"
    by (simp_all add: invalid_input_def dominant_def)
  have fr: "frames dominant - 1 = 3" by (simp add: dominant_def)
  have ln: "length [0, 1, 2 :: nat] - 1 = 2" by simp
  have d: "decode_exact (1 / 2) dominant [0, 1, 2] = Inr [0, 0, 1, 2]"
    using decode_exact_ok [OF v, of "1 / 2"] unfolding fr ln dominant_backtrack .
  have q: "valid_path (length [0, 1, 2 :: nat]) [0, 1, 2, 2] \<and> length [0, 1, 2, 2 :: nat] = frames dominant"
    by (simp add: valid_path_def dominant_def)
  from decode_exact_optimal [OF v, of "1 / 2"] d q show ?thesis by auto
qed

section \<open>The coverage invariant\<close>

lemma steps_ok_hd_le_last: "steps_ok p \<Longrightarrow> p \<noteq> [] \<Longrightarrow> hd p \<le> last p"
  by (induction p rule: steps_ok.induct) auto

lemma steps_ok_bounds: "steps_ok p \<Longrightarrow> x \<in> set p \<Longrightarrow> hd p \<le> x \<and> x \<le> last p"
proof (induction p rule: steps_ok.induct)
  case 1
  then show ?case by simp
next
  case (2 y)
  then show ?case by simp
next
  case (3 a b ys)
  have "b \<le> last (b # ys)" using 3 steps_ok_hd_le_last [of "b # ys"] by simp
  with 3 show ?case by auto
qed

lemma steps_ok_covers:
  "steps_ok p \<Longrightarrow> p \<noteq> [] \<Longrightarrow> hd p \<le> j \<Longrightarrow> j \<le> last p \<Longrightarrow> j \<in> set p"
proof (induction p rule: steps_ok.induct)
  case 1
  then show ?case by simp
next
  case (2 y)
  then show ?case by simp
next
  case (3 a b ys)
  show ?case
  proof (cases "j = a")
    case True
    then show ?thesis by simp
  next
    case False
    with 3 have "j \<in> set (b # ys)" by auto
    then show ?thesis by simp
  qed
qed

lemma durations_sum:
  assumes "valid_path N p"
  shows "sum_list (map (\<lambda>j. count_list p j) [0..<N]) = length p"
proof -
  have sub: "set p \<subseteq> {0..<N}"
    using assms steps_ok_bounds [of p] by (fastforce simp: valid_path_def)
  have "sum_list (map (count_list p) [0..<N]) = sum (count_list p) {0..<N}"
    by (simp add: interv_sum_list_conv_sum_set_nat)
  also have "\<dots> = length p" using sub by (intro sum_count_set) simp_all
  finally show ?thesis .
qed

lemma durations_positive:
  assumes "valid_path N p" and "j < N"
  shows "1 \<le> count_list p j"
proof -
  have "j \<in> set p"
    using assms by (intro steps_ok_covers) (auto simp: valid_path_def)
  then have "0 < count_list p j" using count_list_0_iff [of p j] by auto
  then show ?thesis by simp
qed

text \<open>
  C2. For every input that passes the input check, with \<open>T \<ge> N\<close>, \<open>decode_exact\<close>
  returns a path on which \<open>to_durations\<close> succeeds, and the durations have length
  \<open>N\<close>, sum to \<open>T\<close>, and are at least 1 at every token position.
\<close>

theorem decode_exact_durations:
  assumes "\<not> invalid_input P toks" and "length toks \<le> frames P"
  shows "\<exists>p d. decode_exact eps P toks = Inr p \<and> to_durations p (length toks) = Some d
               \<and> length d = length toks \<and> sum_list d = frames P
               \<and> (\<forall>j < length toks. 1 \<le> d ! j)"
proof -
  let ?p = "backtrack (cost eps P toks) (frames P - 1) (length toks - 1)"
  let ?d = "map (\<lambda>j. count_list ?p j) [0..<length toks]"
  have dec: "decode_exact eps P toks = Inr ?p" using assms by (rule decode_exact_ok)
  from decode_exact_valid_path [OF assms dec]
  have vp: "valid_path (length toks) ?p" and len: "length ?p = frames P" by simp_all
  have td: "to_durations ?p (length toks) = Some ?d" using vp by (simp add: to_durations_def)
  have sm: "sum_list ?d = frames P" using durations_sum [OF vp] len by simp
  have ps: "\<forall>j < length toks. 1 \<le> ?d ! j" using durations_positive [OF vp] by simp
  from dec td sm ps show ?thesis by (intro exI [of _ ?p] exI [of _ ?d]) simp
qed

theorem decode_exact_durations_witness:
  "decode_exact (1 / 2) dominant [0, 1, 2] = Inr [0, 0, 1, 2]
   \<and> to_durations [0, 0, 1, 2] 3 = Some [2, 1, 1]"
proof -
  have v: "\<not> invalid_input dominant [0, 1, 2]" "length [0, 1, 2 :: nat] \<le> frames dominant"
    by (simp_all add: invalid_input_def dominant_def)
  have fr: "frames dominant - 1 = 3" by (simp add: dominant_def)
  have ln: "length [0, 1, 2 :: nat] - 1 = 2" by simp
  have d: "decode_exact (1 / 2) dominant [0, 1, 2] = Inr [0, 0, 1, 2]"
    using decode_exact_ok [OF v, of "1 / 2"] unfolding fr ln dominant_backtrack .
  have t: "to_durations [0, 0, 1, 2] 3 = Some [2, 1, 1]"
    by (simp add: to_durations_def valid_path_def upt_rec numeral_3_eq_3)
  from decode_exact_durations [OF v, of "1 / 2"] d t show ?thesis by simp
qed

section \<open>Error conditions of the decoders\<close>

text \<open>
  C4. Both decoders raise InvalidInput exactly when \<open>N = 0\<close>, \<open>T = 0\<close> or a token
  index is out of the symbol range, whatever else holds of the input (the check comes
  first). On an input that passes the check, the exact decoder raises InfeasibleAlignment
  exactly when \<open>T < N\<close> or its final cell is \<open>+\<infinity>\<close>, and the beam decoder exactly
  when \<open>T < N\<close>. With \<open>T = 2\<close> and \<open>N = 3\<close> in-range tokens both raise
  InfeasibleAlignment.
\<close>

theorem decode_error_conditions:
  "(decode_exact eps P toks = Inl InvalidInput \<longleftrightarrow>
      length toks = 0 \<or> frames P = 0 \<or> (\<exists>t \<in> set toks. symbols P \<le> t))
   \<and> (decode_beam eps K P toks = Inl InvalidInput \<longleftrightarrow>
      length toks = 0 \<or> frames P = 0 \<or> (\<exists>t \<in> set toks. symbols P \<le> t))
   \<and> (decode_exact eps P toks = Inl InfeasibleAlignment \<longleftrightarrow>
      \<not> invalid_input P toks
      \<and> (frames P < length toks
         \<or> best (cost eps P toks) (frames P - 1) (length toks - 1) = PInf))
   \<and> (decode_beam eps K P toks = Inl InfeasibleAlignment \<longleftrightarrow>
      \<not> invalid_input P toks \<and> frames P < length toks)
   \<and> (frames P = 2 \<and> length toks = 3 \<and> (\<forall>t \<in> set toks. t < symbols P) \<longrightarrow>
      decode_exact eps P toks = Inl InfeasibleAlignment
      \<and> decode_beam eps K P toks = Inl InfeasibleAlignment)"
proof -
  have inv: "invalid_input P toks \<longleftrightarrow>
      length toks = 0 \<or> frames P = 0 \<or> (\<exists>t \<in> set toks. symbols P \<le> t)"
    by (simp add: invalid_input_def)
  have e1: "decode_exact eps P toks = Inl InvalidInput \<longleftrightarrow> invalid_input P toks"
    by (simp add: decode_exact_def split: ecost.splits)
  have b1: "decode_beam eps K P toks = Inl InvalidInput \<longleftrightarrow> invalid_input P toks"
    by (simp add: decode_beam_def split: option.splits)
  have e2: "decode_exact eps P toks = Inl InfeasibleAlignment \<longleftrightarrow>
      \<not> invalid_input P toks
      \<and> (frames P < length toks
         \<or> best (cost eps P toks) (frames P - 1) (length toks - 1) = PInf)"
    by (simp add: decode_exact_def split: ecost.splits)
  have b2: "decode_beam eps K P toks = Inl InfeasibleAlignment \<longleftrightarrow>
      \<not> invalid_input P toks \<and> frames P < length toks"
    by (simp add: decode_beam_def split: option.splits)
  have ex: "decode_exact eps P toks = Inl InfeasibleAlignment
      \<and> decode_beam eps K P toks = Inl InfeasibleAlignment"
    if "frames P = 2" "length toks = 3" "\<forall>t \<in> set toks. t < symbols P"
  proof -
    have "\<not> invalid_input P toks" using that by (auto simp: invalid_input_def)
    then show ?thesis using that e2 b2 by simp
  qed
  from e1 b1 e2 b2 ex show ?thesis
    unfolding inv by blast
qed

theorem decode_error_conditions_witness:
  "decode_exact (1 / 2) (uniform 2 3) [0, 1, 2] = Inl InfeasibleAlignment
   \<and> decode_beam (1 / 2) 4 (uniform 2 3) [0, 1, 2] = Inl InfeasibleAlignment
   \<and> decode_exact (1 / 2) (uniform 2 3) [0, 1, 3] = Inl InvalidInput
   \<and> decode_beam (1 / 2) 4 (uniform 2 3) [] = Inl InvalidInput"
  using decode_error_conditions [of "1 / 2" "uniform 2 3" "[0, 1, 2]" 4]
        decode_error_conditions [of "1 / 2" "uniform 2 3" "[0, 1, 3]" 4]
        decode_error_conditions [of "1 / 2" "uniform 2 3" "[]" 4]
  by (simp add: uniform_def)

section \<open>A wide beam agrees with the exact decoder\<close>

lemma pick_best_None: "pick_best xs = None \<longleftrightarrow> xs = []"
  by (induction xs) (simp_all split: option.splits)

lemma pick_best_min:
  "pick_best xs = Some m \<Longrightarrow> m \<in> set xs \<and> (\<forall>x \<in> set xs. cand_key m \<le> cand_key x)"
proof (induction xs arbitrary: m)
  case Nil
  then show ?case by simp
next
  case (Cons a xs)
  show ?case
  proof (cases "pick_best xs")
    case None
    then have "xs = []" by (simp add: pick_best_None)
    with Cons.prems None show ?thesis by simp
  next
    case (Some y)
    note ih = Cons.IH [OF Some]
    show ?thesis
    proof (cases "cand_key a \<le> cand_key y")
      case True
      with Cons.prems Some have "m = a" by simp
      with True ih show ?thesis by auto
    next
      case False
      with Cons.prems Some have "m = y" by simp
      with False ih show ?thesis by auto
    qed
  qed
qed

lemma pick_best_unique:
  assumes "a \<in> set xs" and "\<forall>x \<in> set xs. x \<noteq> a \<longrightarrow> cand_key a < cand_key x"
  shows "pick_best xs = Some a"
proof -
  from assms(1) have "xs \<noteq> []" by auto
  then obtain m where m: "pick_best xs = Some m"
    using pick_best_None [of xs] by (cases "pick_best xs") auto
  from pick_best_min [OF m] have "m \<in> set xs" "cand_key m \<le> cand_key a"
    using assms(1) by auto
  with assms(2) have "m = a" by force
  with m show ?thesis by simp
qed

lemma filter_distinct_key:
  "distinct (map f xs) \<Longrightarrow> x \<in> set xs \<Longrightarrow> filter (\<lambda>h. f h = f x) xs = [x]"
proof (induction xs)
  case Nil
  then show ?case by simp
next
  case (Cons a xs)
  show ?case
  proof (cases "a = x")
    case True
    with Cons.prems have "\<forall>h \<in> set xs. f h \<noteq> f x" by (auto simp: image_iff)
    then have "filter (\<lambda>h. f h = f x) xs = []" by (simp add: filter_empty_conv)
    with True show ?thesis by simp
  next
    case False
    with Cons.prems have "x \<in> set xs" "f a \<noteq> f x" by auto
    with Cons show ?thesis by simp
  qed
qed

lemma cell_hyp_fields:
  "htok (cell_hyp c i j) = j" "hpath (cell_hyp c i j) = backtrack c i j"
  "hcost (cell_hyp c i j) = path_cost c (backtrack c i j)"
  by (simp_all add: cell_hyp_def)

lemma holds_row_init: "0 < N \<Longrightarrow> holds_row c N 0 [\<lparr>hcost = c 0 0, htok = 0, hpath = [0]\<rparr>]"
proof -
  assume "0 < N"
  then have "{j. j \<le> 0 \<and> j < N} = {0}" by auto
  then show ?thesis by (simp add: holds_row_def cell_hyp_def path_cost_def)
qed

lemma best_final_row:
  assumes "holds_row c N i hyps" and "0 < N" and "N - 1 \<le> i"
  shows "best_final N hyps = Some (cell_hyp c i (N - 1))"
proof -
  have "cell_hyp c i (N - 1) \<in> set hyps" using assms by (auto simp: holds_row_def)
  moreover have "distinct (map htok hyps)" using assms by (simp add: holds_row_def)
  ultimately have "filter (\<lambda>h. htok h = htok (cell_hyp c i (N - 1))) hyps = [cell_hyp c i (N - 1)]"
    by (rule filter_distinct_key [rotated])
  then show ?thesis by (simp add: best_final_def cell_hyp_fields)
qed

lemma backtrack_length: "j \<le> i \<Longrightarrow> length (backtrack c i j) = Suc i"
  using backtrack_path [of j i c] by simp

lemma best_fin: "j \<le> i \<Longrightarrow> best c i j = Fin (path_cost c (backtrack c i j))"
  using backtrack_path [of j i c] by simp

lemma cell_hyp_stay:
  assumes "came_from c (Suc i) j = Stay" and "j \<le> i"
  shows "cell_hyp c (Suc i) j =
     \<lparr>hcost = path_cost c (backtrack c i j) + c (Suc i) j, htok = j,
      hpath = backtrack c i j @ [j]\<rparr>"
  using assms by (simp add: cell_hyp_def path_cost_snoc backtrack_length)

lemma cell_hyp_advance:
  assumes "came_from c (Suc i) j = Advance" and "j \<le> Suc i"
  shows "cell_hyp c (Suc i) j =
     \<lparr>hcost = path_cost c (backtrack c i (j - 1)) + c (Suc i) j, htok = j,
      hpath = backtrack c i (j - 1) @ [j]\<rparr>"
proof -
  have "0 < j" using assms(1) by (auto simp: came_from_def split: if_splits)
  with assms(2) have "j - 1 \<le> i" by simp
  then show ?thesis using assms(1) by (simp add: cell_hyp_def path_cost_snoc backtrack_length)
qed

lemma came_from_cases:
  assumes "0 < j" and "j \<le> i"
  shows "came_from c (Suc i) j = Advance
           \<longleftrightarrow> path_cost c (backtrack c i (j - 1)) \<le> path_cost c (backtrack c i j)"
proof -
  have "j - 1 \<le> i" using assms by simp
  then show ?thesis using assms by (simp add: came_from_def best_fin)
qed

lemma came_from_edge: "j = Suc i \<Longrightarrow> came_from c (Suc i) j = Advance"
  by (simp add: came_from_def best_unreachable)

lemma came_from_zero: "came_from c i 0 = Stay"
  by (simp add: came_from_def)

lemma cands_member:
  assumes "holds_row c N i hyps"
  shows "x \<in> set (filter (\<lambda>x. htok (snd x) = j) (concat (map (expand c N (Suc i)) hyps)))
    \<longleftrightarrow> (j \<le> i \<and> j < N \<and>
          x = (Stay, \<lparr>hcost = path_cost c (backtrack c i j) + c (Suc i) j, htok = j,
                      hpath = backtrack c i j @ [j]\<rparr>))
        \<or> (0 < j \<and> j \<le> Suc i \<and> j < N \<and>
          x = (Advance, \<lparr>hcost = path_cost c (backtrack c i (j - 1)) + c (Suc i) j, htok = j,
                         hpath = backtrack c i (j - 1) @ [j]\<rparr>))"
  (is "?L \<longleftrightarrow> ?S \<or> ?A")
proof
  assume ?L
  then obtain h where h: "h \<in> set hyps" "x \<in> set (expand c N (Suc i) h)" "htok (snd x) = j"
    by auto
  from h(1) assms obtain k where k: "k \<le> i" "k < N" "h = cell_hyp c i k"
    by (auto simp: holds_row_def)
  from h(2) have "x = (Stay, \<lparr>hcost = hcost h + c (Suc i) (htok h), htok = htok h,
                              hpath = hpath h @ [htok h]\<rparr>)
      \<or> (Suc (htok h) < N \<and>
         x = (Advance, \<lparr>hcost = hcost h + c (Suc i) (Suc (htok h)), htok = Suc (htok h),
                        hpath = hpath h @ [Suc (htok h)]\<rparr>))"
    by (auto simp: expand_def split: if_splits)
  then show "?S \<or> ?A"
  proof
    assume "x = (Stay, \<lparr>hcost = hcost h + c (Suc i) (htok h), htok = htok h,
                              hpath = hpath h @ [htok h]\<rparr>)"
    with h(3) k have ?S by (simp add: cell_hyp_def)
    then show ?thesis ..
  next
    assume "Suc (htok h) < N \<and>
         x = (Advance, \<lparr>hcost = hcost h + c (Suc i) (Suc (htok h)), htok = Suc (htok h),
                        hpath = hpath h @ [Suc (htok h)]\<rparr>)"
    with h(3) k have ?A by (auto simp: cell_hyp_def)
    then show ?thesis ..
  qed
next
  assume "?S \<or> ?A"
  then show ?L
  proof
    assume s: ?S
    then have "cell_hyp c i j \<in> set hyps" using assms by (auto simp: holds_row_def)
    moreover have "x \<in> set (expand c N (Suc i) (cell_hyp c i j))"
      using s by (simp add: expand_def cell_hyp_def)
    ultimately show ?L using s by auto
  next
    assume a: ?A
    then have "j - 1 \<le> i \<and> j - 1 < N" by auto
    then have "cell_hyp c i (j - 1) \<in> set hyps" using assms by (auto simp: holds_row_def)
    moreover have "x \<in> set (expand c N (Suc i) (cell_hyp c i (j - 1)))"
      using a by (simp add: expand_def cell_hyp_def)
    ultimately show ?L using a by auto
  qed
qed

lemma no_member_nil: "(\<And>x. x \<notin> set xs) \<Longrightarrow> xs = []"
  by (cases xs) auto

lemma pick_at:
  assumes "holds_row c N i hyps"
  shows "pick_best (filter (\<lambda>x. htok (snd x) = j) (concat (map (expand c N (Suc i)) hyps)))
           = (if j \<le> Suc i \<and> j < N then Some (came_from c (Suc i) j, cell_hyp c (Suc i) j)
              else None)"
proof -
  let ?xs = "filter (\<lambda>x. htok (snd x) = j) (concat (map (expand c N (Suc i)) hyps))"
  let ?S = "(Stay, \<lparr>hcost = path_cost c (backtrack c i j) + c (Suc i) j, htok = j,
                      hpath = backtrack c i j @ [j]\<rparr>)"
  let ?A = "(Advance, \<lparr>hcost = path_cost c (backtrack c i (j - 1)) + c (Suc i) j, htok = j,
                         hpath = backtrack c i (j - 1) @ [j]\<rparr>)"
  note mem = cands_member [OF assms, of _ j]
  show ?thesis
  proof (cases "j \<le> Suc i \<and> j < N")
    case False
    then have "\<And>x. x \<notin> set ?xs" using mem by auto
    then have "?xs = []" by (rule no_member_nil)
    then show ?thesis using False by (simp del: filter_concat)
  next
    case True
    show ?thesis
    proof (cases "came_from c (Suc i) j")
      case Stay
      have ji: "j \<le> i"
      proof (rule ccontr)
        assume "\<not> j \<le> i"
        with True have "j = Suc i" by simp
        then show False using Stay came_from_edge [of j i c] by simp
      qed
      have eq: "(came_from c (Suc i) j, cell_hyp c (Suc i) j) = ?S"
        using Stay ji by (simp add: cell_hyp_stay)
      have in_s: "?S \<in> set ?xs" using mem [of ?S] ji True by simp
      have less: "cand_key ?S < cand_key x" if "x \<in> set ?xs" "x \<noteq> ?S" for x
      proof -
        from that mem [of x] have x: "x = ?A" "0 < j" by auto
        with Stay ji have "\<not> path_cost c (backtrack c i (j - 1)) \<le> path_cost c (backtrack c i j)"
          using came_from_cases [of j i c] by simp
        then show ?thesis using x by (simp add: cand_key_def)
      qed
      have "pick_best ?xs = Some ?S" using in_s less by (intro pick_best_unique) blast+
      then show ?thesis using True eq by (simp del: filter_concat)
    next
      case Advance
      have j0: "0 < j" using Advance came_from_zero [of c "Suc i"] by (cases j) auto
      have eq: "(came_from c (Suc i) j, cell_hyp c (Suc i) j) = ?A"
        using Advance True by (simp add: cell_hyp_advance)
      have in_a: "?A \<in> set ?xs" using mem [of ?A] j0 True by simp
      have less: "cand_key ?A < cand_key x" if "x \<in> set ?xs" "x \<noteq> ?A" for x
      proof -
        from that mem [of x] have x: "x = ?S" "j \<le> i" by auto
        with Advance j0 have "path_cost c (backtrack c i (j - 1)) \<le> path_cost c (backtrack c i j)"
          using came_from_cases [of j i c] by simp
        then show ?thesis using x by (simp add: cand_key_def)
      qed
      have "pick_best ?xs = Some ?A" using in_a less by (intro pick_best_unique) blast+
      then show ?thesis using True eq by (simp del: filter_concat)
    qed
  qed
qed

lemma map_filter_agree:
  "(\<And>x. x \<in> set xs \<Longrightarrow> f x = g x) \<Longrightarrow> List.map_filter f xs = List.map_filter g xs"
  by (induction xs) (auto simp: List.map_filter_simps split: option.splits)

lemma map_filter_upt:
  "List.map_filter (\<lambda>j. if j \<le> m \<and> j < N then Some (g j) else None) [0..<N]
     = map g [0..<min (Suc m) N]"
proof (induction N)
  case 0
  then show ?case by (simp add: List.map_filter_simps)
next
  case (Suc N)
  have split: "List.map_filter f (xs @ [x]) = List.map_filter f xs @ (case f x of None \<Rightarrow> [] | Some y \<Rightarrow> [y])"
    for f :: "nat \<Rightarrow> 'a option" and xs x
    by (simp add: List.map_filter_def split: option.splits)
  have cong: "List.map_filter (\<lambda>j. if j \<le> m \<and> j < Suc N then Some (g j) else None) [0..<N]
      = List.map_filter (\<lambda>j. if j \<le> m \<and> j < N then Some (g j) else None) [0..<N]"
    by (rule map_filter_agree) simp
  show ?case
  proof (cases "N \<le> m")
    case True
    then have "min (Suc m) (Suc N) = Suc N" "min (Suc m) N = N" by simp_all
    then show ?thesis using True Suc by (simp add: split cong)
  next
    case False
    then have "min (Suc m) (Suc N) = Suc m" "min (Suc m) N = Suc m" by simp_all
    then show ?thesis using False Suc by (simp add: split cong)
  qed
qed

lemma merge_row:
  assumes "holds_row c N i hyps"
  shows "merge_cands N (concat (map (expand c N (Suc i)) hyps))
           = map (\<lambda>j. (came_from c (Suc i) j, cell_hyp c (Suc i) j)) [0..<min (Suc (Suc i)) N]"
  unfolding merge_cands_def pick_at [OF assms] by (rule map_filter_upt)

lemma distinct_map_sort_key:
  "distinct (map f (map g (sort_key k xs))) = distinct (map f (map g xs))"
proof -
  have "mset (map f (map g (sort_key k xs))) = mset (map f (map g xs))"
    by (simp only: mset_map mset_sort)
  then show ?thesis by (rule mset_eq_imp_distinct_iff)
qed

lemma beam_step_row:
  assumes "holds_row c N i hyps" and "N \<le> K"
  shows "holds_row c N (Suc i) (beam_step c N K (Suc i) hyps)"
proof -
  let ?g = "\<lambda>j. (came_from c (Suc i) j, cell_hyp c (Suc i) j)"
  let ?m = "map ?g [0..<min (Suc (Suc i)) N]"
  have "length ?m \<le> K" using assms(2) by simp
  then have pr: "prune K ?m = sort_key cand_key ?m" by (simp add: prune_def)
  have step: "beam_step c N K (Suc i) hyps = map snd (sort_key cand_key ?m)"
    unfolding beam_step_def merge_row [OF assms(1)] pr ..
  have toks: "map htok (map snd ?m) = [0..<min (Suc (Suc i)) N]"
    by (simp add: cell_hyp_fields o_def map_idI)
  have d: "distinct (map htok (map snd (sort_key cand_key ?m)))"
    unfolding distinct_map_sort_key toks by simp
  have "set (map snd (sort_key cand_key ?m)) = cell_hyp c (Suc i) ` {0..<min (Suc (Suc i)) N}"
    by (simp add: image_image)
  also have "{0..<min (Suc (Suc i)) N} = {j. j \<le> Suc i \<and> j < N}" by auto
  finally show ?thesis using d by (simp add: holds_row_def step)
qed

lemma beam_frames_row:
  "holds_row c N i hyps \<Longrightarrow> N \<le> K \<Longrightarrow>
   holds_row c N (i + n) (beam_frames c N K hyps [Suc i..<Suc i + n])"
proof (induction n arbitrary: i hyps)
  case 0
  then show ?case by simp
next
  case (Suc n)
  have "[Suc i..<Suc i + Suc n] = Suc i # [Suc (Suc i)..<Suc (Suc i) + n]"
    by (simp add: upt_conv_Cons)
  moreover have "holds_row c N (Suc i + n)
      (beam_frames c N K (beam_step c N K (Suc i) hyps) [Suc (Suc i)..<Suc (Suc i) + n])"
    using Suc.prems by (intro Suc.IH beam_step_row)
  ultimately show ?case by simp
qed

lemma beam_search_row:
  assumes "0 < N" and "N \<le> K" and "0 < T"
  shows "holds_row c N (T - 1) (beam_search c N K T)"
proof -
  have "[1..<T] = [Suc 0..<Suc 0 + (T - 1)]" using assms(3) by simp
  then show ?thesis
    using beam_frames_row [OF holds_row_init [OF assms(1)] assms(2), of c "T - 1"]
    by (simp add: beam_search_def)
qed

lemma decode_beam_wide:
  assumes "\<not> invalid_input P toks" and "length toks \<le> frames P" and "length toks \<le> K"
  shows "decode_beam eps K P toks
           = Inr (backtrack (cost eps P toks) (frames P - 1) (length toks - 1))"
proof -
  have pos: "0 < length toks" "0 < frames P"
    using assms(1) by (simp_all add: invalid_input_def)
  have le: "length toks - 1 \<le> frames P - 1" using assms(2) by simp
  from best_final_row [OF beam_search_row [OF pos(1) assms(3) pos(2)] pos(1) le]
  show ?thesis using assms(1,2) by (simp add: decode_beam_def cell_hyp_fields)
qed

text \<open>
  C5. With a beam width \<open>K \<ge> N\<close>, \<open>decode_beam\<close> returns what \<open>decode_exact\<close>
  returns on the same matrix and tokens: on an input that passes the check with
  \<open>T \<ge> N\<close> the same alignment, hence the same total cost, and otherwise the same
  error. A beam that wide prunes nothing.
\<close>

theorem wide_beam_agrees:
  assumes "length toks \<le> K"
  shows "decode_beam eps K P toks = decode_exact eps P toks
         \<and> map_sum id (path_cost (cost eps P toks)) (decode_beam eps K P toks)
             = map_sum id (path_cost (cost eps P toks)) (decode_exact eps P toks)
         \<and> (\<not> invalid_input P toks \<and> length toks \<le> frames P \<longrightarrow>
              (\<exists>p. decode_beam eps K P toks = Inr p \<and> decode_exact eps P toks = Inr p))"
proof -
  have eq: "decode_beam eps K P toks = decode_exact eps P toks"
  proof (cases "\<not> invalid_input P toks \<and> length toks \<le> frames P")
    case True
    then show ?thesis using assms by (simp add: decode_beam_wide decode_exact_ok)
  next
    case False
    then show ?thesis by (auto simp: decode_beam_def decode_exact_def)
  qed
  moreover have "\<exists>p. decode_beam eps K P toks = Inr p \<and> decode_exact eps P toks = Inr p"
    if "\<not> invalid_input P toks" "length toks \<le> frames P"
    using that assms by (simp add: decode_beam_wide decode_exact_ok)
  ultimately show ?thesis by simp
qed

theorem wide_beam_agrees_witness:
  "decode_beam (1 / 2) 3 dominant [0, 1, 2] = Inr [0, 0, 1, 2]
   \<and> decode_exact (1 / 2) dominant [0, 1, 2] = Inr [0, 0, 1, 2]"
proof -
  have v: "\<not> invalid_input dominant [0, 1, 2]" "length [0, 1, 2 :: nat] \<le> frames dominant"
    by (simp_all add: invalid_input_def dominant_def)
  have fr: "frames dominant - 1 = 3" by (simp add: dominant_def)
  have ln: "length [0, 1, 2 :: nat] - 1 = 2" by simp
  have d: "decode_exact (1 / 2) dominant [0, 1, 2] = Inr [0, 0, 1, 2]"
    using decode_exact_ok [OF v, of "1 / 2"] unfolding fr ln dominant_backtrack .
  have k: "length [0, 1, 2 :: nat] \<le> 3" by simp
  from wide_beam_agrees [OF k, of "1 / 2" dominant] d show ?thesis by simp
qed

section \<open>Ties and uniform matrices\<close>


























end
